theory Spec2Isabelle
  imports
    Main
    "HOL-Library.Char_ord"
    "HOL-Library.List_Lexorder"
    "HOL-Library.Product_Lexorder"
begin

section \<open>Values handled by the tensor classes of \<^verbatim>\<open>sympy_objects.py\<close>\<close>

text \<open>
  Modelled from the spec: the \<^verbatim>\<open>Index\<close> entity of module \<^verbatim>\<open>indices\<close>, which is
  imported by \<^verbatim>\<open>sympy_objects.py\<close> but is not among the sources. The record holds
  exactly what the code reads from an index:
  \<^item> \<open>space\<close>: the representative character \<^verbatim>\<open>idx.space[0]\<close> of the space tag
    (\<^verbatim>\<open>o\<close> occupied, \<^verbatim>\<open>v\<close> virtual, \<^verbatim>\<open>g\<close> general);
  \<^item> \<open>spin\<close>: the spin tag \<^verbatim>\<open>idx.spin\<close>, the empty string when unrestricted;
  \<^item> \<open>letter\<close>: the letter prefix \<^verbatim>\<open>idx.name[0]\<close> of the name;
  \<^item> \<open>number\<close>: the numeric suffix \<^verbatim>\<open>idx.name[1:]\<close> read as a number, \<open>0\<close> when the
    name has no suffix;
  \<^item> \<open>ident\<close>: the identity tie-break \<^verbatim>\<open>hash(idx)\<close>, which tells apart placeholders of
    equal name.
  Two indices are equal when all five agree.
\<close>

record Index =
  space :: char
  spin :: string
  letter :: char
  number :: nat
  ident :: int

text \<open>
  An index position of a tensor or an argument of a delta is an \<^verbatim>\<open>Index\<close> or any other
  value of the host system (a number, a symbol left over by a substitution). Of such a
  value the code reads its printed form \<^verbatim>\<open>str(x)\<close> and its \<^verbatim>\<open>hash(x)\<close>; the
  third field is its value when it is an integer.
\<close>

datatype arg =
    Idx Index
  | Other (str_form: string) (obj_hash: int) (int_value: "int option")

fun is_Index :: "arg \<Rightarrow> bool" where
  "is_Index (Idx _) = True"
| "is_Index (Other _ _ _) = False"

datatype error =
    Inputerror
  | NotImplementedError
  | TypeError
  | AttributeError
  | IndexError

text \<open>
  What a constructor of the host system returns: the scalar zero, the scalar one or
  minus one, the object that was built, or the product of \<open>-1\<close> and that object.
\<close>

datatype 'a expr = Zero | One | MinusOne | Obj 'a | Neg 'a

text \<open>The product of \<open>-1\<close> and an expression.\<close>

fun negate :: "'a expr \<Rightarrow> 'a expr" where
  "negate Zero = Zero"
| "negate One = MinusOne"
| "negate MinusOne = One"
| "negate (Obj t) = Neg t"
| "negate (Neg t) = Obj t"

section \<open>The ordering keys\<close>

text \<open>
  The keys are Python tuples, compared lexicographically. The key of an \<^verbatim>\<open>Index\<close> is
  \<^verbatim>\<open>(space[0], spin, number, name[0], hash)\<close>, the key of any other value is
  \<^verbatim>\<open>('', 0, str, hash)\<close>. The first component of an index key is a string of one
  character, so the empty string of the other kind is smaller and the comparison of the
  two kinds is decided there.
\<close>

datatype key =
    NonIndexKey string int
  | IndexKey char string int char int

fun key_less :: "key \<Rightarrow> key \<Rightarrow> bool" where
  "key_less (NonIndexKey s h) (NonIndexKey s' h') = ((s, h) < (s', h'))"
| "key_less (NonIndexKey s h) (IndexKey a b c d e) = True"
| "key_less (IndexKey a b c d e) (NonIndexKey s h) = False"
| "key_less (IndexKey a b c d e) (IndexKey a' b' c' d' e') =
     ((a, b, c, d, e) < (a', b', c', d', e'))"

instantiation key :: linorder
begin

definition less_key :: "key \<Rightarrow> key \<Rightarrow> bool" where
  "less_key x y = key_less x y"

definition less_eq_key :: "key \<Rightarrow> key \<Rightarrow> bool" where
  "less_eq_key x y = (key_less x y \<or> x = y)"

instance
proof
  have irrefl: "\<not> key_less x x" for x
    by (cases x) simp_all
  have trans: "key_less x z" if "key_less x y" "key_less y z" for x y z
    using that by (cases x; cases y; cases z; hypsubst; simp only: key_less.simps)
  have total: "key_less x y \<or> x = y \<or> key_less y x" for x y
  proof (cases x; cases y; hypsubst; simp only: key_less.simps key.inject key.distinct simp_thms)
    fix s h s' h'
    show "(s, h) < (s', h') \<or> s = s' \<and> h = h' \<or> (s', h') < (s::string, h::int)"
      using less_linear [of "(s, h)" "(s', h')"] by (simp only: prod.inject)
  next
    fix a b c d e a' b' c' d' e'
    show "(a, b, c, d, e) < (a', b', c', d', e')
       \<or> a = a' \<and> b = b' \<and> c = c' \<and> d = d' \<and> e = e'
       \<or> (a', b', c', d', e') < (a::char, b::string, c::int, d::char, e::int)"
      using less_linear [of "(a, b, c, d, e)" "(a', b', c', d', e')"] by (simp only: prod.inject)
  qed
  fix x y z :: key
  show "(x < y) = (x \<le> y \<and> \<not> y \<le> x)"
    unfolding less_key_def less_eq_key_def using irrefl trans by blast
  show "x \<le> x"
    by (simp add: less_eq_key_def)
  show "x \<le> y \<Longrightarrow> y \<le> z \<Longrightarrow> x \<le> z"
    unfolding less_eq_key_def using trans by blast
  show "x \<le> y \<Longrightarrow> y \<le> x \<Longrightarrow> x = y"
    unfolding less_eq_key_def using irrefl trans by blast
  show "x \<le> y \<or> y \<le> x"
    unfolding less_eq_key_def using total by blast
qed

end

definition AntiSymmetricTensor_sort_canonical :: "arg \<Rightarrow> key" where
  "AntiSymmetricTensor_sort_canonical idx =
     (case idx of
        Idx i \<Rightarrow> IndexKey (space i) (spin i) (int (number i)) (letter i) (ident i)
      | Other s h v \<Rightarrow> NonIndexKey s h)"

definition Delta_sort_canonical :: "arg \<Rightarrow> key" where
  "Delta_sort_canonical idx =
     (case idx of
        Idx i \<Rightarrow> IndexKey (space i) (spin i) (int (number i)) (letter i) (ident i)
      | Other s h v \<Rightarrow> NonIndexKey s h)"

definition SingleSymmetryTensor_sort_canonical :: "arg \<Rightarrow> key" where
  "SingleSymmetryTensor_sort_canonical idx =
     (case idx of
        Idx i \<Rightarrow> IndexKey (space i) (spin i) (int (number i)) (letter i) (ident i)
      | Other s h v \<Rightarrow> NonIndexKey s h)"

section \<open>The permutation sort of the host system\<close>

text \<open>
  Modelled from the spec: the permutation-sort primitive
  \<^verbatim>\<open>_sort_anticommuting_fermions\<close>, which belongs to the host system and is not
  among the sources. Given a sequence and a key function it returns the sequence
  reordered by ascending key together with the number of transpositions of neighbours
  it performed, and it signals \<^verbatim>\<open>ViolationOfPauliPrinciple\<close> (here \<open>None\<close>) when two
  entries of equal key meet. The model inserts each entry into the sorted rest by
  exchanging it with its right neighbour while that neighbour has the smaller key.
\<close>

fun insert_fermion :: "'a \<Rightarrow> 'a list \<Rightarrow> ('a \<Rightarrow> 'k::linorder) \<Rightarrow> ('a list \<times> nat) option" where
  "insert_fermion x [] f = Some ([x], 0)"
| "insert_fermion x (y # ys) f =
     (if f x = f y then None
      else if f x < f y then Some (x # y # ys, 0)
      else (case insert_fermion x ys f of
              None \<Rightarrow> None
            | Some (zs, n) \<Rightarrow> Some (y # zs, Suc n)))"

fun sort_anticommuting_fermions :: "'a list \<Rightarrow> ('a \<Rightarrow> 'k::linorder) \<Rightarrow> ('a list \<times> nat) option" where
  "sort_anticommuting_fermions [] f = Some ([], 0)"
| "sort_anticommuting_fermions (x # xs) f =
     (case sort_anticommuting_fermions xs f of
        None \<Rightarrow> None
      | Some (ys, n) \<Rightarrow>
          (case insert_fermion x ys f of
             None \<Rightarrow> None
           | Some (zs, m) \<Rightarrow> Some (zs, n + m)))"

text \<open>
  The number of pairs of entries that stand in descending order of their keys. It is
  the number of exchanges that any sort by exchanges of out-of-order neighbours
  performs, and the count of the model above (lemma \<open>sort_fermions_counts_inversions\<close>).
\<close>

fun inversions :: "'a list \<Rightarrow> ('a \<Rightarrow> 'k::linorder) \<Rightarrow> nat" where
  "inversions [] f = 0"
| "inversions (x # xs) f = length (filter (\<lambda>y. f y < f x) xs) + inversions xs f"

section \<open>AntiSymmetricTensor\<close>

record AntiSymmetricTensor =
  symbol :: string
  upper :: "arg list"
  lower :: "arg list"
  bra_ket_sym :: int

text \<open>\<^verbatim>\<open>all(isinstance(s, Index) for s in xs)\<close>, with the indices themselves when it holds.\<close>

fun indices_of :: "arg list \<Rightarrow> Index list option" where
  "indices_of [] = Some []"
| "indices_of (Idx i # xs) = (case indices_of xs of None \<Rightarrow> None | Some is \<Rightarrow> Some (i # is))"
| "indices_of (Other s h v # xs) = None"

text \<open>The last lines of the constructors: the object, preceded by \<open>-1\<close> when the flag is set.\<close>

definition attach :: "bool \<Rightarrow> 'a \<Rightarrow> 'a expr" where
  "attach negative t = (if negative then Neg t else Obj t)"

definition AntiSymmetricTensor_new ::
  "string \<Rightarrow> arg list \<Rightarrow> arg list \<Rightarrow> int \<Rightarrow> error + AntiSymmetricTensor expr" where
  "AntiSymmetricTensor_new symb upper0 lower0 bks =
     (case sort_anticommuting_fermions upper0 AntiSymmetricTensor_sort_canonical of
        None \<Rightarrow> Inr Zero
      | Some (upper1, sign_u) \<Rightarrow>
     (case sort_anticommuting_fermions lower0 AntiSymmetricTensor_sort_canonical of
        None \<Rightarrow> Inr Zero
      | Some (lower1, sign_l) \<Rightarrow>
          (let plain = Inr (attach ((sign_u + sign_l) mod 2 \<noteq> 0)
                 \<lparr>symbol = symb,upper = upper1, lower = lower1, bra_ket_sym = bks\<rparr>);
               swapped = Inr (attach (((if bks = - 1 then sign_u + 1 else sign_u) + sign_l) mod 2 \<noteq> 0)
                 \<lparr>symbol = symb,upper = lower1, lower = upper1, bra_ket_sym = bks\<rparr>)
           in
           case (indices_of upper1, indices_of lower1) of
             (Some us, Some ls) \<Rightarrow>
               if bks \<noteq> 0 then
                 if bks \<noteq> 1 \<and> bks \<noteq> - 1 then Inl Inputerror
                 else if length upper1 \<noteq> length lower1 then Inl NotImplementedError
                 else
                   let space_u = map space us;
                       space_l = map space ls
                   in
                   if space_l < space_u then swapped
                   else if space_l = space_u then
                     let lower_names = map (\<lambda>s. (int (number s), letter s)) ls;
                         upper_names = map (\<lambda>s. (int (number s), letter s)) us
                     in if lower_names < upper_names then swapped else plain
                   else plain
               else plain
           | _ \<Rightarrow> plain)))"


section \<open>Delta\<close>

record Delta =
  delta_i :: arg
  delta_j :: arg
  delta_range :: "(arg \<times> arg) option"

text \<open>
  The arithmetic that \<^verbatim>\<open>Delta.eval\<close> asks of the host system, which is not among the
  sources: the three-valued \<^verbatim>\<open>(i - j).is_zero\<close>, and the comparisons \<^verbatim>\<open>d - x > 0\<close> and
  \<^verbatim>\<open>d - x < 0\<close> of a bound \<open>d\<close> of the range with an argument \<open>x\<close>. Each answer is
  \<open>Some b\<close> when the host system decides it and \<open>None\<close> when it does not (an unknown
  \<^verbatim>\<open>is_zero\<close>, a comparison that stays a symbolic relation). The functions of this
  section take these answers as the parameter \<open>h\<close>, so that what is proved of them holds
  for whatever the host system decides.
\<close>

record host =
  diff_is_zero :: "arg \<Rightarrow> arg \<Rightarrow> bool option"
  diff_gt_zero :: "arg \<Rightarrow> arg \<Rightarrow> bool option"
  diff_lt_zero :: "arg \<Rightarrow> arg \<Rightarrow> bool option"

fun fuzzy_not :: "bool option \<Rightarrow> bool option" where
  "fuzzy_not None = None"
| "fuzzy_not (Some b) = Some (\<not> b)"

text \<open>
  The truth value Python takes of a comparison in a condition: the boolean the host
  system decided, and a \<^verbatim>\<open>TypeError\<close> for a comparison that stayed a symbolic relation,
  whose truth value the host system refuses to give.
\<close>

fun truth_value :: "bool option \<Rightarrow> error + bool" where
  "truth_value (Some b) = Inr b"
| "truth_value None = Inl TypeError"

text \<open>Python's \<^verbatim>\<open>a or b\<close>: \<open>b\<close> is evaluated only when \<open>a\<close> is false.\<close>

definition py_or :: "error + bool \<Rightarrow> error + bool \<Rightarrow> error + bool" where
  "py_or a b = (case a of Inl e \<Rightarrow> Inl e | Inr True \<Rightarrow> Inr True | Inr False \<Rightarrow> b)"

text \<open>The range check of \<^verbatim>\<open>Delta.eval\<close> (lines 155 to 158): whether it returns zero.\<close>

definition range_check :: "host \<Rightarrow> (arg \<times> arg) option \<Rightarrow> arg \<Rightarrow> arg \<Rightarrow> error + bool" where
  "range_check h drange i j =
     (case drange of
        None \<Rightarrow> Inr False
      | Some (dinf, dsup) \<Rightarrow>
          py_or (truth_value (diff_gt_zero h dinf i))
            (py_or (truth_value (diff_gt_zero h dinf j))
              (py_or (truth_value (diff_lt_zero h dsup i))
                 (truth_value (diff_lt_zero h dsup j)))))"

text \<open>\<^verbatim>\<open>min(i, j, key=f)\<close>: the first of the two unless the second has the smaller key.\<close>

definition py_min :: "'a \<Rightarrow> 'a \<Rightarrow> ('a \<Rightarrow> 'k::linorder) \<Rightarrow> 'a" where
  "py_min i j f = (if f j < f i then j else i)"

text \<open>
  \<open>Delta_eval\<close> is the class method \<^verbatim>\<open>eval\<close>; it returns \<open>None\<close> where the Python
  falls off the end of the method. \<open>Delta_new\<close> is the call \<^verbatim>\<open>cls(i, j, delta_range)\<close>
  of the host system: it calls \<^verbatim>\<open>eval\<close> and builds the symbolic object when that
  returns \<open>None\<close>. Reading \<^verbatim>\<open>space\<close> of a value that is not an \<^verbatim>\<open>Index\<close> raises
  \<^verbatim>\<open>AttributeError\<close>.
\<close>

function Delta_eval ::
    "host \<Rightarrow> arg \<Rightarrow> arg \<Rightarrow> (arg \<times> arg) option \<Rightarrow> error + Delta expr option"
  and Delta_new ::
    "host \<Rightarrow> arg \<Rightarrow> arg \<Rightarrow> (arg \<times> arg) option \<Rightarrow> error + Delta expr" where
  "Delta_eval h i j drange =
     (case range_check h drange i j of
        Inl e \<Rightarrow> Inl e
      | Inr True \<Rightarrow> Inr (Some Zero)
      | Inr False \<Rightarrow>
          if diff_is_zero h i j = Some True \<or> fuzzy_not (diff_is_zero h i j) = Some True
          then Inr (Some One)
          else
            (case (i, j) of
               (Idx a, Idx b) \<Rightarrow>
                 if space a \<noteq> CHR ''g'' \<and> space b \<noteq> CHR ''g'' \<and> space a \<noteq> space b
                 then Inr (Some Zero)
                 else if spin a \<noteq> [] \<and> spin b \<noteq> [] \<and> spin a \<noteq> spin b
                 then Inr (Some Zero)
                 else if i \<noteq> py_min i j Delta_sort_canonical then
                   (if drange \<noteq> None
                    then map_sum id Some (Delta_new h j i drange)
                    else map_sum id Some (Delta_new h j i None))
                 else Inr None
             | _ \<Rightarrow> Inl AttributeError))"
| "Delta_new h i j drange =
     (case Delta_eval h i j drange of
        Inl e \<Rightarrow> Inl e
      | Inr (Some v) \<Rightarrow> Inr v
      | Inr None \<Rightarrow> Inr (Obj \<lparr>delta_i = i, delta_j = j, delta_range = drange\<rparr>))"
  by pat_completeness auto
termination
  by (relation "measure (\<lambda>x. case x of
        Inl (h, i, j, r) \<Rightarrow> (if Delta_sort_canonical j < Delta_sort_canonical i then 2 else 0)
      | Inr (h, i, j, r) \<Rightarrow> (if Delta_sort_canonical j < Delta_sort_canonical i then 3 else 1))")
     (auto simp: py_min_def split: if_splits)

declare Delta_eval.simps [simp del] Delta_new.simps [simp del]

definition Delta_get_preferred_index :: "Delta \<Rightarrow> error + nat option" where
  "Delta_get_preferred_index self =
     (case (delta_i self, delta_j self) of
        (Idx a, Idx b) \<Rightarrow>
          if spin a \<noteq> spin b then Inl NotImplementedError
          else if space a = space b then Inr (Some 0)
          else if space b = CHR ''g'' then Inr (Some 0)
          else if space a = CHR ''g'' then Inr (Some 1)
          else Inr None
      | _ \<Rightarrow> Inl AttributeError)"

section \<open>SingleSymmetryTensor\<close>

record SingleSymmetryTensor =
  sst_symbol :: string
  indices :: "arg list"
  perms :: "(int \<times> int) list"
  factor :: int

text \<open>
  The position that the Python index \<open>i\<close> addresses in a sequence of length \<open>n\<close>: a
  negative index counts from the end, and an index outside the sequence raises
  \<^verbatim>\<open>IndexError\<close> (here \<open>None\<close>).
\<close>

definition py_index :: "nat \<Rightarrow> int \<Rightarrow> nat option" where
  "py_index n i =
     (let k = (if i < 0 then int n + i else i)
      in if 0 \<le> k \<and> k < int n then Some (nat k) else None)"

text \<open>The variables that the loop over \<^verbatim>\<open>perms\<close> updates.\<close>

record loop_state =
  permuted :: "arg list"
  apply_marks :: "bool list"
  min_apply :: "key option"
  min_not_apply :: "key option"

text \<open>Their values before the loop (lines 222 to 225).\<close>

definition initial_state :: "arg list \<Rightarrow> loop_state" where
  "initial_state idxs =
     \<lparr>permuted = idxs, apply_marks = [], min_apply = None, min_not_apply = None\<rparr>"

text \<open>\<^verbatim>\<open>m is None or v < m\<close>\<close>

fun none_or_less :: "key option \<Rightarrow> key \<Rightarrow> bool" where
  "none_or_less None v = True"
| "none_or_less (Some m) v = (v < m)"

text \<open>
  The loop over \<^verbatim>\<open>perms\<close>. The result \<open>Inr None\<close> is the early \<^verbatim>\<open>return S.Zero\<close>; the
  indices \<open>p\<close> and \<open>q\<close> are read from the sequence given to the constructor, the
  exchange is written to the copy \<open>permuted\<close>.
\<close>

fun perm_loop ::
  "arg list \<Rightarrow> int \<Rightarrow> (int \<times> int) list \<Rightarrow> loop_state \<Rightarrow> error + loop_state option" where
  "perm_loop idxs fac [] st = Inr (Some st)"
| "perm_loop idxs fac (perm # rest) st =
     (let i = min (fst perm) (snd perm);
          j = max (fst perm) (snd perm)
      in
      case (py_index (length idxs) i, py_index (length idxs) j) of
        (Some i', Some j') \<Rightarrow>
          (let p = idxs ! i';
               q = idxs ! j'
           in
           if fac = - 1 \<and> p = q then Inr None
           else
             let p_val = SingleSymmetryTensor_sort_canonical p;
                 q_val = SingleSymmetryTensor_sort_canonical q;
                 st1 =
                   (if q_val < p_val then
                      st\<lparr>apply_marks := apply_marks st @ [True],
                         min_apply :=
                           (if none_or_less (min_apply st) q_val then Some q_val
                            else min_apply st)\<rparr>
                    else
                      st\<lparr>min_not_apply :=
                           (if none_or_less (min_not_apply st) q_val then Some p_val
                            else min_not_apply st)\<rparr>)
             in perm_loop idxs fac rest
                  (st1\<lparr>permuted := ((permuted st1)[i' := q])[j' := p]\<rparr>))
      | _ \<Rightarrow> Inl IndexError)"

text \<open>
  The comparison \<^verbatim>\<open>min_apply < min_not_apply\<close>; Python raises \<^verbatim>\<open>TypeError\<close> when one
  of the two is still \<^verbatim>\<open>None\<close>.
\<close>

fun tracked_less :: "key option \<Rightarrow> key option \<Rightarrow> error + bool" where
  "tracked_less (Some a) (Some b) = Inr (a < b)"
| "tracked_less _ _ = Inl TypeError"

text \<open>
  Whether the exchanged sequence is stored: the two branches after the loop, which both
  set \<^verbatim>\<open>indices = permuted\<close>.
\<close>

definition batch_applied :: "(int \<times> int) list \<Rightarrow> loop_state \<Rightarrow> error + bool" where
  "batch_applied ps st =
     (if length (apply_marks st) = length ps then Inr True
      else if 2 * length (apply_marks st) \<ge> length ps
      then tracked_less (min_apply st) (min_not_apply st)
      else Inr False)"

text \<open>\<^verbatim>\<open>list(chain.from_iterable(perms))\<close>: the positions named by the pairs, in order.\<close>

definition chain_perms :: "(int \<times> int) list \<Rightarrow> int list" where
  "chain_perms ps = concat (map (\<lambda>(a, b). [a, b]) ps)"

definition SingleSymmetryTensor_new ::
  "string \<Rightarrow> arg list \<Rightarrow> (int \<times> int) list \<Rightarrow> int \<Rightarrow> error + SingleSymmetryTensor expr" where
  "SingleSymmetryTensor_new symb idxs ps fac =
     (let idx = chain_perms ps in
      if length idx \<noteq> length (remdups idx) then Inl NotImplementedError
      else if fac \<noteq> 1 \<and> fac \<noteq> - 1 then Inl Inputerror
      else
        (case perm_loop idxs fac ps (initial_state idxs) of
           Inl e \<Rightarrow> Inl e
         | Inr None \<Rightarrow> Inr Zero
         | Inr (Some st) \<Rightarrow>
             (case batch_applied ps st of
                Inl e \<Rightarrow> Inl e
              | Inr True \<Rightarrow>
                  Inr (attach (fac = - 1)
                    \<lparr>sst_symbol = symb, indices = permuted st, perms = ps, factor = fac\<rparr>)
              | Inr False \<Rightarrow>
                  Inr (attach False
                    \<lparr>sst_symbol = symb, indices = idxs, perms = ps, factor = fac\<rparr>))))"

section \<open>Sample values\<close>

text \<open>
  Two occupied, two virtual and one general index, and the integers 0, 1 and 2 as the
  host system passes them; they serve as concrete inputs below.
\<close>

abbreviation i_occ :: Index where
  "i_occ \<equiv> \<lparr>space = CHR ''o'', spin = [], letter = CHR ''i'', number = 0, ident = 1\<rparr>"

abbreviation j_occ :: Index where
  "j_occ \<equiv> \<lparr>space = CHR ''o'', spin = [], letter = CHR ''j'', number = 0, ident = 2\<rparr>"

abbreviation a_virt :: Index where
  "a_virt \<equiv> \<lparr>space = CHR ''v'', spin = [], letter = CHR ''a'', number = 0, ident = 3\<rparr>"

abbreviation b_virt :: Index where
  "b_virt \<equiv> \<lparr>space = CHR ''v'', spin = [], letter = CHR ''b'', number = 0, ident = 4\<rparr>"

abbreviation p_gen :: Index where
  "p_gen \<equiv> \<lparr>space = CHR ''g'', spin = [], letter = CHR ''p'', number = 0, ident = 5\<rparr>"

text \<open>The occupied index named \<^verbatim>\<open>i\<close> followed by the number \<open>n\<close>.\<close>

abbreviation occ :: "nat \<Rightarrow> arg" where
  "occ n \<equiv> Idx \<lparr>space = CHR ''o'', spin = [], letter = CHR ''i'', number = n, ident = int n\<rparr>"

abbreviation num_0 :: arg where
  "num_0 \<equiv> Other ''0'' 0 (Some 0)"

abbreviation num_1 :: arg where
  "num_1 \<equiv> Other ''1'' 1 (Some 1)"

abbreviation num_2 :: arg where
  "num_2 \<equiv> Other ''2'' 2 (Some 2)"

abbreviation num_5 :: arg where
  "num_5 \<equiv> Other ''5'' 5 (Some 5)"

abbreviation num_9 :: arg where
  "num_9 \<equiv> Other ''9'' 9 (Some 9)"

text \<open>
  A sample of the host system's answers, for the concrete inputs below: the arithmetic
  of two integers is decided, a value subtracted from itself is zero, and everything
  else is left unknown, as it is for an \<^verbatim>\<open>Index\<close>, a symbol without numeric assumptions.
\<close>

fun arg_int :: "arg \<Rightarrow> int option" where
  "arg_int (Idx _) = None"
| "arg_int (Other s h v) = v"

definition integer_host :: host where
  "integer_host =
     \<lparr>diff_is_zero = (\<lambda>i j.
        case (arg_int i, arg_int j) of
          (Some a, Some b) \<Rightarrow> Some (a = b)
        | _ \<Rightarrow> if i = j then Some True else None),
      diff_gt_zero = (\<lambda>d x.
        case (arg_int d, arg_int x) of
          (Some a, Some n) \<Rightarrow> Some (a - n > 0)
        | _ \<Rightarrow> None),
      diff_lt_zero = (\<lambda>d x.
        case (arg_int d, arg_int x) of
          (Some a, Some n) \<Rightarrow> Some (a - n < 0)
        | _ \<Rightarrow> None)\<rparr>"

section \<open>The ordering keys of the three classes\<close>

text \<open>
  Claim C9. The three key functions \<^verbatim>\<open>AntiSymmetricTensor._sort_canonical\<close>,
  \<^verbatim>\<open>Delta._sort_canonical\<close> and \<^verbatim>\<open>SingleSymmetryTensor._sort_canonical\<close> return the same
  key for every value, an \<^verbatim>\<open>Index\<close> or not.
\<close>

theorem sort_canonical_agree:
  "AntiSymmetricTensor_sort_canonical x = Delta_sort_canonical x
   \<and> Delta_sort_canonical x = SingleSymmetryTensor_sort_canonical x"
  by (simp add: AntiSymmetricTensor_sort_canonical_def Delta_sort_canonical_def
      SingleSymmetryTensor_sort_canonical_def)

section \<open>Facts about the delta\<close>

lemma decided_iff: "(d = Some True \<or> fuzzy_not d = Some True) = (d \<noteq> None)"
  by (cases d) auto

lemma map_sum_Some_eq:
  "map_sum id Some x = Inr (Some v) \<longleftrightarrow> x = Inr v"
  "map_sum id Some x \<noteq> Inr None"
  by (cases x; simp)+

lemma Delta_eval_decided:
  assumes "range_check h r i j = Inr False" and "diff_is_zero h i j = Some b"
  shows "Delta_eval h i j r = Inr (Some One)"
  using assms by (subst Delta_eval.simps) (simp add: decided_iff)

lemma Delta_eval_None:
  assumes "Delta_eval h i j r = Inr None"
  shows "\<exists>a b. i = Idx a \<and> j = Idx b
     \<and> \<not> (space a \<noteq> CHR ''g'' \<and> space b \<noteq> CHR ''g'' \<and> space a \<noteq> space b)
     \<and> \<not> (spin a \<noteq> [] \<and> spin b \<noteq> [] \<and> spin a \<noteq> spin b)
     \<and> \<not> Delta_sort_canonical j < Delta_sort_canonical i"
  using assms
  by (subst (asm) Delta_eval.simps)
     (auto simp: py_min_def map_sum_Some_eq split: sum.splits bool.splits arg.splits if_splits)

lemma Delta_eval_Obj:
  assumes "Delta_eval h i j r = Inr (Some (Obj d))"
  shows "Delta_sort_canonical j < Delta_sort_canonical i \<and> Delta_new h j i r = Inr (Obj d)"
  using assms
  by (cases r; subst (asm) Delta_eval.simps)
     (auto simp: py_min_def map_sum_Some_eq split: sum.splits bool.splits arg.splits if_splits)

lemma Delta_new_Obj:
  assumes "Delta_new h i j r = Inr (Obj d)"
  shows "(Delta_eval h i j r = Inr None \<and> d = \<lparr>delta_i = i, delta_j = j, delta_range = r\<rparr>)
     \<or> Delta_eval h i j r = Inr (Some (Obj d))"
  using assms
  by (subst (asm) Delta_new.simps) (auto split: sum.splits option.splits)

lemma Delta_new_survivor:
  assumes "Delta_new h i j r = Inr (Obj d)"
  shows "\<exists>a b. delta_i d = Idx a \<and> delta_j d = Idx b
     \<and> \<not> (space a \<noteq> CHR ''g'' \<and> space b \<noteq> CHR ''g'' \<and> space a \<noteq> space b)
     \<and> \<not> (spin a \<noteq> [] \<and> spin b \<noteq> [] \<and> spin a \<noteq> spin b)
     \<and> \<not> Delta_sort_canonical (delta_j d) < Delta_sort_canonical (delta_i d)
     \<and> delta_range d = r
     \<and> ((delta_i d = i \<and> delta_j d = j) \<or> (delta_i d = j \<and> delta_j d = i))"
proof -
  from Delta_new_Obj [OF assms] show ?thesis
  proof
    assume "Delta_eval h i j r = Inr None \<and> d = \<lparr>delta_i = i, delta_j = j, delta_range = r\<rparr>"
    then show ?thesis
      using Delta_eval_None [of h i j r] by auto
  next
    assume "Delta_eval h i j r = Inr (Some (Obj d))"
    from Delta_eval_Obj [OF this]
    have lt: "Delta_sort_canonical j < Delta_sort_canonical i"
      and sw: "Delta_new h j i r = Inr (Obj d)"
      by simp_all
    from Delta_new_Obj [OF sw] show ?thesis
    proof
      assume "Delta_eval h j i r = Inr None \<and> d = \<lparr>delta_i = j, delta_j = i, delta_range = r\<rparr>"
      then show ?thesis
        using Delta_eval_None [of h j i r] by auto
    next
      assume "Delta_eval h j i r = Inr (Some (Obj d))"
      from Delta_eval_Obj [OF this]
      have "Delta_sort_canonical i < Delta_sort_canonical j"
        by simp
      with lt have False
        by (simp add: not_less_iff_gr_or_eq)
      then show ?thesis ..
    qed
  qed
qed

lemma Delta_new_canonical:
  assumes "Delta_new h i j r = Inr (Obj d)"
  shows "delta_i d = py_min (delta_i d) (delta_j d) Delta_sort_canonical
     \<and> delta_range d = r \<and> {delta_i d, delta_j d} = {i, j}"
  using Delta_new_survivor [OF assms] by (auto simp: py_min_def)

lemma Delta_new_range_order:
  assumes "diff_gt_zero h dinf i = Some True" and "diff_gt_zero h dinf j = None"
  shows "Delta_new h i j (Some (dinf, dsup)) = Inr Zero
     \<and> Delta_new h j i (Some (dinf, dsup)) = Inl TypeError"
  using assms
  by (simp add: Delta_new.simps Delta_eval.simps range_check_def py_or_def)

section \<open>Evaluation of the delta\<close>

text \<open>
  Claim C1. A call of \<^verbatim>\<open>Delta.eval\<close> that passes the range check should return one for
  provably equal arguments and zero for provably unequal ones. Line 161 of the source
  returns one in both cases (lemma \<open>Delta_eval_decided\<close>, for whatever the host system
  decides): for the integers 1 and 2, whose difference is known not to be zero, the
  result is the scalar one.
\<close>

theorem Delta_eval_one_two:
  "Delta_eval integer_host num_1 num_2 None = Inr (Some One)"
  by (subst Delta_eval.simps) (simp add: range_check_def integer_host_def)

section \<open>Symmetry of the delta\<close>

text \<open>
  Claim C8. \<^verbatim>\<open>Delta(i, j, range)\<close> and \<^verbatim>\<open>Delta(j, i, range)\<close> should produce the same
  value, and a delta that stays symbolic stores the argument of minimal key first and
  keeps its range (the latter is lemma \<open>Delta_new_canonical\<close>). The range check of
  line 157 is one chain of \<^verbatim>\<open>or\<close> that asks for the truth value of each comparison in
  turn: when the host system decides the first comparison as true and leaves the second
  a symbolic relation, one order returns zero and the other raises \<^verbatim>\<open>TypeError\<close>
  (lemma \<open>Delta_new_range_order\<close>). With the range (5, 9) this happens for the integer
  0 and an index.
\<close>

theorem Delta_range_check_depends_on_order:
  "Delta_new integer_host num_0 (Idx j_occ) (Some (num_5, num_9)) = Inr Zero
   \<and> Delta_new integer_host (Idx j_occ) num_0 (Some (num_5, num_9)) = Inl TypeError"
  by (rule Delta_new_range_order) (simp_all add: integer_host_def)

section \<open>The preferred index of a delta\<close>

text \<open>
  Claim C10. For a delta that construction left symbolic, \<^verbatim>\<open>_get_preferred_index\<close>
  raises \<^verbatim>\<open>NotImplementedError\<close> exactly when the spins of its two indices differ;
  otherwise it returns 0 when the two spaces are equal or the second space is the
  general one, and 1 when the first space is the general one, and one of these cases
  always applies.
\<close>

theorem preferred_index_of_symbolic_delta:
  assumes "Delta_new h i j r = Inr (Obj d)"
  shows "\<exists>a b. delta_i d = Idx a \<and> delta_j d = Idx b
     \<and> (Delta_get_preferred_index d = Inl NotImplementedError \<longleftrightarrow> spin a \<noteq> spin b)
     \<and> (spin a = spin b \<and> (space a = space b \<or> space b = CHR ''g'')
          \<longrightarrow> Delta_get_preferred_index d = Inr (Some 0))
     \<and> (spin a = spin b \<and> \<not> (space a = space b \<or> space b = CHR ''g'')
          \<longrightarrow> space a = CHR ''g'' \<and> Delta_get_preferred_index d = Inr (Some 1))"
proof -
  from Delta_new_survivor [OF assms] obtain a b where
    ab: "delta_i d = Idx a" "delta_j d = Idx b"
    and sp: "\<not> (space a \<noteq> CHR ''g'' \<and> space b \<noteq> CHR ''g'' \<and> space a \<noteq> space b)"
    by blast
  then show ?thesis
    by (intro exI [of _ a] exI [of _ b]) (auto simp: Delta_get_preferred_index_def)
qed

theorem preferred_index_of_symbolic_delta_witness:
  "Delta_new integer_host (Idx i_occ) (Idx p_gen) None
       = Inr (Obj \<lparr>delta_i = Idx p_gen, delta_j = Idx i_occ, delta_range = None\<rparr>)
   \<and> Delta_get_preferred_index \<lparr>delta_i = Idx p_gen, delta_j = Idx i_occ, delta_range = None\<rparr>
       = Inr (Some 1)"
proof -
  have h: "Delta_new integer_host (Idx i_occ) (Idx p_gen) None
       = Inr (Obj \<lparr>delta_i = Idx p_gen, delta_j = Idx i_occ, delta_range = None\<rparr>)"
    by (simp add: Delta_new.simps Delta_eval.simps range_check_def integer_host_def py_min_def
        Delta_sort_canonical_def less_key_def)
  show ?thesis
    using h preferred_index_of_symbolic_delta [OF h]
    by simp
qed

section \<open>Facts about the permutation sort\<close>

lemma insert_fermion_sorted:
  assumes "sorted_wrt (\<lambda>u v. f u < f v) ys" "f x \<notin> f ` set ys"
  shows "\<exists>zs. insert_fermion x ys f = Some (zs, length (filter (\<lambda>y. f y < f x) ys))
     \<and> sorted_wrt (\<lambda>u v. f u < f v) zs \<and> set zs = insert x (set ys)
     \<and> length zs = Suc (length ys)"
  using assms
proof (induction ys)
  case Nil
  then show ?case by simp
next
  case (Cons y ys)
  show ?case
  proof (cases "f x < f y")
    case True
    then have "\<forall>z\<in>set ys. \<not> f z < f x"
      using Cons.prems(1) by fastforce
    then have "filter (\<lambda>y. f y < f x) ys = []"
      by (simp add: filter_empty_conv)
    with True Cons.prems show ?thesis
      by auto
  next
    case False
    with Cons.prems(2) have lt: "f y < f x"
      by auto
    from Cons.prems obtain zs where
      zs: "insert_fermion x ys f = Some (zs, length (filter (\<lambda>y. f y < f x) ys))"
        "sorted_wrt (\<lambda>u v. f u < f v) zs" "set zs = insert x (set ys)"
        "length zs = Suc (length ys)"
      using Cons.IH by auto
    with lt False Cons.prems show ?thesis
      by auto
  qed
qed

lemma insert_fermion_None:
  assumes "sorted_wrt (\<lambda>u v. f u < f v) ys" "f x \<in> f ` set ys"
  shows "insert_fermion x ys f = None"
  using assms
proof (induction ys)
  case Nil
  then show ?case by simp
next
  case (Cons y ys)
  show ?case
  proof (cases "f x = f y")
    case True
    then show ?thesis by simp
  next
    case False
    with Cons.prems(2) obtain z where z: "z \<in> set ys" "f x = f z"
      by auto
    with Cons.prems(1) have "f y < f x"
      by auto
    moreover have "insert_fermion x ys f = None"
      using Cons.IH Cons.prems(1) z by auto
    ultimately show ?thesis
      using False by simp
  qed
qed

lemma sort_fermions_distinct:
  assumes "distinct (map f xs)"
  shows "\<exists>ys n. sort_anticommuting_fermions xs f = Some (ys, n)
     \<and> sorted_wrt (\<lambda>u v. f u < f v) ys \<and> set ys = set xs \<and> length ys = length xs"
  using assms
proof (induction xs)
  case Nil
  then show ?case by simp
next
  case (Cons x xs)
  then obtain ys n where ys: "sort_anticommuting_fermions xs f = Some (ys, n)"
      "sorted_wrt (\<lambda>u v. f u < f v) ys" "set ys = set xs" "length ys = length xs"
    by auto
  from Cons.prems ys have "f x \<notin> f ` set ys"
    by auto
  from insert_fermion_sorted [OF ys(2) this] ys show ?case
    by auto
qed

lemma sort_fermions_Some:
  assumes "sort_anticommuting_fermions xs f = Some (ys, n)"
  shows "distinct (map f xs)"
  using assms
proof (induction xs arbitrary: ys n)
  case Nil
  then show ?case by simp
next
  case (Cons x xs)
  from Cons.prems obtain zs m where zs: "sort_anticommuting_fermions xs f = Some (zs, m)"
    by (auto split: option.splits)
  then have d: "distinct (map f xs)"
    using Cons.IH by blast
  from sort_fermions_distinct [OF d] zs have s: "sorted_wrt (\<lambda>u v. f u < f v) zs" "set zs = set xs"
    by auto
  have "f x \<notin> f ` set zs"
  proof
    assume "f x \<in> f ` set zs"
    from insert_fermion_None [OF s(1) this] Cons.prems zs show False
      by simp
  qed
  with d s show ?case by simp
qed

lemma sort_fermions_None_iff:
  "sort_anticommuting_fermions xs f = None \<longleftrightarrow> \<not> distinct (map f xs)"
proof (cases "sort_anticommuting_fermions xs f")
  case None
  then show ?thesis
    using sort_fermions_distinct [of f xs] by auto
next
  case (Some r)
  then show ?thesis
    using sort_fermions_Some [of xs f "fst r" "snd r"] by auto
qed

lemma sorted_by_key_unique:
  assumes "sorted_wrt (\<lambda>u v. f u < (f v :: 'k::linorder)) xs"
    and "sorted_wrt (\<lambda>u v. f u < f v) ys" and "set xs = set ys"
  shows "xs = ys"
  using assms
proof (induction xs arbitrary: ys)
  case Nil
  then show ?case by simp
next
  case (Cons x xs)
  then obtain y ys' where ys: "ys = y # ys'"
    by (cases ys) auto
  have xy: "x = y"
  proof (rule ccontr)
    assume ne: "x \<noteq> y"
    with Cons.prems(3) ys have "x \<in> set ys'" "y \<in> set xs"
      by auto
    with Cons.prems(1,2) ys have "f y < f x" "f x < f y"
      by auto
    then show False by simp
  qed
  have "x \<notin> set xs" "y \<notin> set ys'"
    using Cons.prems(1,2) ys by auto
  with Cons.prems(3) ys xy have "set xs = set ys'"
    by auto
  with Cons.IH [of ys'] Cons.prems(1,2) ys xy show ?case
    by simp
qed

section \<open>Facts about the loop of SingleSymmetryTensor\<close>

lemma py_index_nonneg: "0 \<le> k \<Longrightarrow> k < int n \<Longrightarrow> py_index n k = Some (nat k)"
  by (simp add: py_index_def)

lemma chain_perms_Cons: "chain_perms ((a, b) # ps) = a # b # chain_perms ps"
  by (simp add: chain_perms_def)

lemma chain_perms_mem: "(a, b) \<in> set ps \<Longrightarrow> a \<in> set (chain_perms ps) \<and> b \<in> set (chain_perms ps)"
  by (force simp: chain_perms_def)

lemma perm_loop_step:
  assumes "0 \<le> a" "a < int (length idxs)" "0 \<le> b" "b < int (length idxs)"
  shows "perm_loop idxs fac ((a, b) # rest) st =
     (let i' = nat (min a b); j' = nat (max a b); p = idxs ! i'; q = idxs ! j' in
      if fac = - 1 \<and> p = q then Inr None
      else
        let p_val = SingleSymmetryTensor_sort_canonical p;
            q_val = SingleSymmetryTensor_sort_canonical q;
            st1 =
              (if q_val < p_val then
                 st\<lparr>apply_marks := apply_marks st @ [True],
                    min_apply :=
                      (if none_or_less (min_apply st) q_val then Some q_val else min_apply st)\<rparr>
               else
                 st\<lparr>min_not_apply :=
                      (if none_or_less (min_not_apply st) q_val then Some p_val
                       else min_not_apply st)\<rparr>)
        in perm_loop idxs fac rest (st1\<lparr>permuted := ((permuted st1)[i' := q])[j' := p]\<rparr>))"
proof -
  have "py_index (length idxs) (min a b) = Some (nat (min a b))"
    using assms by (intro py_index_nonneg) (auto simp: min_def)
  moreover have "py_index (length idxs) (max a b) = Some (nat (max a b))"
    using assms by (intro py_index_nonneg) (auto simp: max_def)
  ultimately show ?thesis
    by (simp add: Let_def)
qed

lemma perm_loop_zero:
  assumes "(a, b) \<in> set ps" "idxs ! nat a = idxs ! nat b"
    and "\<forall>k\<in>set (chain_perms ps). 0 \<le> k \<and> k < int (length idxs)"
  shows "perm_loop idxs (- 1) ps st = Inr None"
  using assms
proof (induction ps arbitrary: st)
  case Nil
  then show ?case by simp
next
  case (Cons pr ps)
  obtain c d where pr: "pr = (c, d)" by (cases pr)
  from Cons.prems(3) pr have rng: "0 \<le> c" "c < int (length idxs)" "0 \<le> d" "d < int (length idxs)"
    and rest: "\<forall>k\<in>set (chain_perms ps). 0 \<le> k \<and> k < int (length idxs)"
    by (simp_all add: chain_perms_Cons)
  show ?case
  proof (cases "idxs ! nat (min c d) = idxs ! nat (max c d)")
    case True
    then show ?thesis
      unfolding pr by (subst perm_loop_step [OF rng]) (simp add: Let_def)
  next
    case False
    then have "(a, b) \<noteq> (c, d)"
      using Cons.prems(2) by (auto simp: min_def max_def split: if_splits)
    with Cons.prems(1) pr have "(a, b) \<in> set ps" by auto
    then have "perm_loop idxs (- 1) ps st' = Inr None" for st'
      using Cons.IH Cons.prems(2) rest by blast
    then show ?thesis
      unfolding pr by (subst perm_loop_step [OF rng]) (simp add: Let_def)
  qed
qed

lemma perm_loop_permuted:
  assumes "perm_loop idxs fac ps st = Inr (Some st')"
    and "distinct (chain_perms ps)"
    and "\<forall>k\<in>set (chain_perms ps). 0 \<le> k \<and> k < int (length idxs)"
    and "length (permuted st) = length idxs"
  shows "length (permuted st') = length idxs
     \<and> (\<forall>(a, b)\<in>set ps. permuted st' ! nat a = idxs ! nat b \<and> permuted st' ! nat b = idxs ! nat a)
     \<and> (\<forall>k<length idxs. int k \<notin> set (chain_perms ps) \<longrightarrow> permuted st' ! k = permuted st ! k)"
  using assms
proof (induction ps arbitrary: st)
  case Nil
  then show ?case by (simp add: chain_perms_def)
next
  case (Cons pr ps)
  obtain c d where pr: "pr = (c, d)" by (cases pr)
  from Cons.prems(3) pr have rng: "0 \<le> c" "c < int (length idxs)" "0 \<le> d" "d < int (length idxs)"
    and rest: "\<forall>k\<in>set (chain_perms ps). 0 \<le> k \<and> k < int (length idxs)"
    by (simp_all add: chain_perms_Cons)
  from Cons.prems(2) pr have cd: "c \<noteq> d" and fresh: "c \<notin> set (chain_perms ps)" "d \<notin> set (chain_perms ps)"
    and dist: "distinct (chain_perms ps)"
    by (simp_all add: chain_perms_Cons)
  define i' where "i' = nat (min c d)"
  define j' where "j' = nat (max c d)"
  define p where "p = idxs ! i'"
  define q where "q = idxs ! j'"
  have "perm_loop idxs fac ((c, d) # ps) st = Inr (Some st')"
    using Cons.prems(1) pr by simp
  then obtain st1 where
    run: "perm_loop idxs fac ps (st1\<lparr>permuted := ((permuted st1)[i' := q])[j' := p]\<rparr>) = Inr (Some st')"
    and same: "permuted st1 = permuted st"
    unfolding perm_loop_step [OF rng] Let_def i'_def j'_def p_def q_def
    by (auto split: if_splits)
  let ?st2 = "st1\<lparr>permuted := ((permuted st1)[i' := q])[j' := p]\<rparr>"
  have len2: "length (permuted ?st2) = length idxs"
    using Cons.prems(4) same by simp
  note IH = Cons.IH [OF run dist rest len2]
  have ij: "i' \<noteq> j'" "i' < length idxs" "j' < length idxs"
    using rng cd by (auto simp: i'_def j'_def min_def max_def)
  have at_i: "permuted ?st2 ! i' = q" and at_j: "permuted ?st2 ! j' = p"
    using ij Cons.prems(4) same by simp_all
  have keep: "int k \<notin> set (chain_perms ps) \<Longrightarrow> k < length idxs \<Longrightarrow> permuted st' ! k = permuted ?st2 ! k" for k
    using IH by blast
  have nat_c: "int (nat c) = c" and nat_d: "int (nat d) = d"
    using rng by simp_all
  have head: "permuted st' ! nat c = idxs ! nat d \<and> permuted st' ! nat d = idxs ! nat c"
  proof (cases "c < d")
    case True
    then have "i' = nat c" "j' = nat d"
      by (simp_all add: i'_def j'_def min_def max_def)
    then show ?thesis
      using keep [of "nat c"] keep [of "nat d"] fresh nat_c nat_d at_i at_j ij
      by (simp add: p_def q_def)
  next
    case False
    with cd have "i' = nat d" "j' = nat c"
      by (simp_all add: i'_def j'_def min_def max_def)
    then show ?thesis
      using keep [of "nat c"] keep [of "nat d"] fresh nat_c nat_d at_i at_j ij
      by (simp add: p_def q_def)
  qed
  have others: "permuted st' ! k = permuted st ! k"
    if "k < length idxs" "int k \<notin> set (chain_perms (pr # ps))" for k
  proof -
    from that pr have k: "int k \<noteq> c" "int k \<noteq> d" "int k \<notin> set (chain_perms ps)"
      by (simp_all add: chain_perms_Cons)
    then have "k \<noteq> i'" "k \<noteq> j'"
      using rng by (auto simp: i'_def j'_def min_def max_def)
    then have "permuted ?st2 ! k = permuted st ! k"
      using same by simp
    with keep [of k] k that show ?thesis by simp
  qed
  show ?case
    using IH head others pr by auto
qed

lemma not_distinct_idx: "(length xs \<noteq> length (remdups xs)) = (\<not> distinct xs)"
  by (metis distinct_remdups length_remdups_eq remdups_id_iff_distinct)

section \<open>The batch of exchanges of SingleSymmetryTensor\<close>

text \<open>
  Claim C2, as the code has it. When the loop has run without error and the decision
  after it is to store the exchanged sequence, every pair of \<^verbatim>\<open>perms\<close> is exchanged in
  the stored sequence, whether it was marked "apply" or not, every position outside the
  pairs keeps its index, and the result is negated exactly when the factor is \<open>-1\<close>.
  The positions are taken non-negative, within the sequence and pairwise distinct.
\<close>

theorem applied_batch_swaps_every_pair:
  assumes "perm_loop idxs fac ps (initial_state idxs) = Inr (Some st)"
    and "batch_applied ps st = Inr True"
    and "distinct (chain_perms ps)"
    and "\<forall>k\<in>set (chain_perms ps). 0 \<le> k \<and> k < int (length idxs)"
    and "fac = 1 \<or> fac = - 1"
  shows "\<exists>t. SingleSymmetryTensor_new symb idxs ps fac = Inr (if fac = - 1 then Neg t else Obj t)
     \<and> sst_symbol t = symb \<and> perms t = ps \<and> factor t = fac
     \<and> length (indices t) = length idxs
     \<and> (\<forall>(a, b)\<in>set ps. indices t ! nat a = idxs ! nat b \<and> indices t ! nat b = idxs ! nat a)
     \<and> (\<forall>k<length idxs. int k \<notin> set (chain_perms ps) \<longrightarrow> indices t ! k = idxs ! k)"
proof -
  let ?t = "\<lparr>sst_symbol = symb, indices = permuted st, perms = ps, factor = fac\<rparr>"
  have "SingleSymmetryTensor_new symb idxs ps fac = Inr (attach (fac = - 1) ?t)"
    using assms(1,2,3,5)
    by (auto simp add: SingleSymmetryTensor_new_def Let_def not_distinct_idx)
  moreover have "length (permuted (initial_state idxs)) = length idxs"
    by (simp add: initial_state_def)
  note perm_loop_permuted [OF assms(1) assms(3) assms(4) this]
  ultimately show ?thesis
    by (intro exI [of _ ?t]) (simp add: attach_def initial_state_def)
qed

theorem applied_batch_swaps_every_pair_witness:
  "perm_loop [occ 2, occ 1, occ 3, occ 4] 1 [(0, 1), (2, 3)]
      (initial_state [occ 2, occ 1, occ 3, occ 4])
    = Inr (Some \<lparr>permuted = [occ 1, occ 2, occ 4, occ 3], apply_marks = [True],
         min_apply = Some (SingleSymmetryTensor_sort_canonical (occ 1)),
         min_not_apply = Some (SingleSymmetryTensor_sort_canonical (occ 3))\<rparr>)
   \<and> (\<exists>t. SingleSymmetryTensor_new ''u'' [occ 2, occ 1, occ 3, occ 4] [(0, 1), (2, 3)] 1 = Inr (Obj t)
        \<and> indices t ! 0 = occ 1 \<and> indices t ! 1 = occ 2 \<and> indices t ! 2 = occ 4
        \<and> indices t ! 3 = occ 3)"
proof -
  let ?st = "\<lparr>permuted = [occ 1, occ 2, occ 4, occ 3], apply_marks = [True],
         min_apply = Some (SingleSymmetryTensor_sort_canonical (occ 1)),
         min_not_apply = Some (SingleSymmetryTensor_sort_canonical (occ 3))\<rparr>"
  have loop: "perm_loop [occ 2, occ 1, occ 3, occ 4] 1 [(0, 1), (2, 3)]
      (initial_state [occ 2, occ 1, occ 3, occ 4]) = Inr (Some ?st)"
    by (simp add: initial_state_def py_index_def SingleSymmetryTensor_sort_canonical_def
        less_key_def Let_def)
  have dec: "batch_applied [(0, 1), (2, 3)] ?st = Inr True"
    by (simp add: batch_applied_def SingleSymmetryTensor_sort_canonical_def less_key_def)
  have d: "distinct (chain_perms [(0, 1), (2, 3)])"
    by (simp add: chain_perms_def)
  have r: "\<forall>k\<in>set (chain_perms [(0, 1), (2, 3)]). 0 \<le> k \<and> k < int (length [occ 2, occ 1, occ 3, occ 4])"
    by (simp add: chain_perms_def)
  have f: "(1::int) = 1 \<or> (1::int) = - 1"
    by simp
  from applied_batch_swaps_every_pair [OF loop dec d r f, of "''u''"] loop show ?thesis
    by (auto simp: numeral_2_eq_2 numeral_3_eq_3)
qed

text \<open>
  Claim C2 as stated, with the pairs marked "skip" left in place, fails: for the
  indices \<open>i2, i1, i3, i4\<close> and the pairs (0, 1) and (2, 3) the first pair is marked
  "apply", the second is not (the key of \<open>i4\<close> is not below the key of \<open>i3\<close>), the batch
  is applied, and the stored sequence is \<open>i1, i2, i4, i3\<close>: line 239 exchanges every
  pair in \<^verbatim>\<open>permuted\<close>.
\<close>

theorem skip_pair_swapped_counterexample:
  "\<not> SingleSymmetryTensor_sort_canonical (occ 4) < SingleSymmetryTensor_sort_canonical (occ 3)
   \<and> SingleSymmetryTensor_new ''u'' [occ 2, occ 1, occ 3, occ 4] [(0, 1), (2, 3)] 1
       = Inr (Obj \<lparr>sst_symbol = ''u'', indices = [occ 1, occ 2, occ 4, occ 3],
                  perms = [(0, 1), (2, 3)], factor = 1\<rparr>)"
  by (simp add: SingleSymmetryTensor_new_def chain_perms_def initial_state_def py_index_def
      SingleSymmetryTensor_sort_canonical_def less_key_def batch_applied_def attach_def Let_def)

section \<open>The tracked minimum of the pairs that are not exchanged\<close>

text \<open>
  Claim C3. The tracked "skip" key should be the minimum of the keys of the
  earlier-position indices of the pairs not marked "apply", and the batch should be
  applied exactly when every pair is marked, or at least half are and the minimum
  "apply" key is below that minimum. Line 237 compares the key of the later-position
  index with the tracked value and then stores the key of the earlier-position one.
  For the indices \<open>i5, i9, i2, i6, i8, i3, i7, i4\<close> and the pairs (0, 1), (2, 3), (4, 5),
  (6, 7) the pairs not marked are \<open>(i5, i9)\<close> and \<open>(i2, i6)\<close>; the loop ends with the key
  of \<open>i5\<close> as \<^verbatim>\<open>min_not_apply\<close> although the key of \<open>i2\<close> is smaller, and the batch is
  applied (the key of \<open>i3\<close> is below the key of \<open>i5\<close>) although the minimum "apply" key,
  of \<open>i3\<close>, is not below the key of \<open>i2\<close>.
\<close>

theorem min_not_apply_is_not_the_minimum:
  "perm_loop [occ 5, occ 9, occ 2, occ 6, occ 8, occ 3, occ 7, occ 4] 1
      [(0, 1), (2, 3), (4, 5), (6, 7)]
      (initial_state [occ 5, occ 9, occ 2, occ 6, occ 8, occ 3, occ 7, occ 4])
    = Inr (Some \<lparr>permuted = [occ 9, occ 5, occ 6, occ 2, occ 3, occ 8, occ 4, occ 7],
         apply_marks = [True, True],
         min_apply = Some (SingleSymmetryTensor_sort_canonical (occ 3)),
         min_not_apply = Some (SingleSymmetryTensor_sort_canonical (occ 5))\<rparr>)
   \<and> SingleSymmetryTensor_sort_canonical (occ 2) < SingleSymmetryTensor_sort_canonical (occ 3)
   \<and> SingleSymmetryTensor_sort_canonical (occ 3) < SingleSymmetryTensor_sort_canonical (occ 5)
   \<and> SingleSymmetryTensor_new ''u'' [occ 5, occ 9, occ 2, occ 6, occ 8, occ 3, occ 7, occ 4]
        [(0, 1), (2, 3), (4, 5), (6, 7)] 1
       = Inr (Obj \<lparr>sst_symbol = ''u'',
            indices = [occ 9, occ 5, occ 6, occ 2, occ 3, occ 8, occ 4, occ 7],
            perms = [(0, 1), (2, 3), (4, 5), (6, 7)], factor = 1\<rparr>)"
  by (simp add: SingleSymmetryTensor_new_def chain_perms_def initial_state_def py_index_def
      SingleSymmetryTensor_sort_canonical_def less_key_def batch_applied_def attach_def Let_def)

section \<open>Degenerate index groups\<close>

lemma AntiSymmetricTensor_new_Pauli:
  assumes "\<not> distinct up \<or> \<not> distinct lo"
  shows "AntiSymmetricTensor_new symb up lo bks = Inr Zero"
proof -
  have "\<not> distinct (map AntiSymmetricTensor_sort_canonical up)
      \<or> \<not> distinct (map AntiSymmetricTensor_sort_canonical lo)"
    using assms by (auto simp: distinct_map)
  then have "sort_anticommuting_fermions up AntiSymmetricTensor_sort_canonical = None
      \<or> sort_anticommuting_fermions lo AntiSymmetricTensor_sort_canonical = None"
    by (simp add: sort_fermions_None_iff)
  then show ?thesis
    by (auto simp: AntiSymmetricTensor_new_def split: option.splits)
qed

lemma SingleSymmetryTensor_new_self_pair:
  assumes "(a, b) \<in> set ps" "idxs ! nat a = idxs ! nat b"
    and "distinct (chain_perms ps)"
    and "\<forall>k\<in>set (chain_perms ps). 0 \<le> k \<and> k < int (length idxs)"
  shows "SingleSymmetryTensor_new symb idxs ps (- 1) = Inr Zero"
  using assms(3) perm_loop_zero [OF assms(1,2,4)]
  by (simp add: SingleSymmetryTensor_new_def Let_def not_distinct_idx)

text \<open>
  Claim C7. A duplicate index within the upper or within the lower group makes the
  constructor of AntiSymmetricTensor return the scalar zero, whatever the other
  arguments are; and with the factor \<open>-1\<close> a pair of \<^verbatim>\<open>perms\<close> whose two positions hold
  equal indices makes the constructor of SingleSymmetryTensor return the scalar zero.
  Neither raises an error. The positions of \<^verbatim>\<open>perms\<close> are taken non-negative, within
  the sequence and pairwise distinct, as the constructor requires.
\<close>

theorem degenerate_indices_give_zero:
  "(\<not> distinct up \<or> \<not> distinct lo \<longrightarrow> AntiSymmetricTensor_new symb up lo bks = Inr Zero)
   \<and> ((a, b) \<in> set ps \<and> idxs ! nat a = idxs ! nat b \<and> distinct (chain_perms ps)
        \<and> (\<forall>k\<in>set (chain_perms ps). 0 \<le> k \<and> k < int (length idxs))
       \<longrightarrow> SingleSymmetryTensor_new symb' idxs ps (- 1) = Inr Zero)"
  using AntiSymmetricTensor_new_Pauli [of up lo symb bks]
    SingleSymmetryTensor_new_self_pair [of a b ps idxs symb']
  by blast

theorem degenerate_indices_give_zero_witness:
  "AntiSymmetricTensor_new ''t'' [Idx i_occ, Idx i_occ] [Idx a_virt, Idx b_virt] 0 = Inr Zero
   \<and> SingleSymmetryTensor_new ''u'' [occ 1, occ 1, occ 3, occ 4] [(0, 1)] (- 1) = Inr Zero"
proof -
  have h1: "\<not> distinct [Idx i_occ, Idx i_occ] \<or> \<not> distinct [Idx a_virt, Idx b_virt]"
    by simp
  have h2: "((0::int), (1::int)) \<in> set [(0, 1)]
      \<and> [occ 1, occ 1, occ 3, occ 4] ! nat 0 = [occ 1, occ 1, occ 3, occ 4] ! nat 1
      \<and> distinct (chain_perms [(0, 1)])
      \<and> (\<forall>k\<in>set (chain_perms [(0, 1)]). 0 \<le> k \<and> k < int (length [occ 1, occ 1, occ 3, occ 4]))"
    by (simp add: chain_perms_def)
  from degenerate_indices_give_zero
    [of "[Idx i_occ, Idx i_occ]" "[Idx a_virt, Idx b_virt]" "''t''" 0 0 1 "[(0, 1)]"
      "[occ 1, occ 1, occ 3, occ 4]" "''u''"] h1 h2
  show ?thesis by blast
qed

section \<open>The order of the two groups under bra/ket symmetry\<close>

lemma indices_of_Some_iff: "(\<exists>is. indices_of xs = Some is) = list_all is_Index xs"
  by (induction xs rule: indices_of.induct) (auto split: option.splits)

lemma indices_of_length: "indices_of xs = Some is \<Longrightarrow> length is = length xs"
  by (induction xs arbitrary: "is" rule: indices_of.induct) (auto split: option.splits)


lemma sort_fermions_all_Index:
  assumes "sort_anticommuting_fermions xs f = Some (ys, n)"
  shows "list_all is_Index ys = list_all is_Index xs"
proof -
  from sort_fermions_distinct [OF sort_fermions_Some [OF assms]] assms have "set ys = set xs"
    by auto
  then show ?thesis
    by (simp add: list_all_iff)
qed

text \<open>The constructor once both groups are sorted.\<close>

lemma AntiSymmetricTensor_new_sorted:
  assumes "sort_anticommuting_fermions up AntiSymmetricTensor_sort_canonical = Some (up1, n)"
    and "sort_anticommuting_fermions lo AntiSymmetricTensor_sort_canonical = Some (lo1, m)"
    and "indices_of up1 = Some us" and "indices_of lo1 = Some ls" and "bks \<noteq> 0"
  shows "AntiSymmetricTensor_new symb up lo bks =
     (if bks \<noteq> 1 \<and> bks \<noteq> - 1 then Inl Inputerror
      else if length up1 \<noteq> length lo1 then Inl NotImplementedError
      else if map space ls < map space us
              \<or> (map space ls = map space us
                  \<and> map (\<lambda>s. (int (number s), letter s)) ls < map (\<lambda>s. (int (number s), letter s)) us)
      then Inr (attach (((if bks = - 1 then n + 1 else n) + m) mod 2 \<noteq> 0)
             \<lparr>symbol = symb, upper = lo1, lower = up1, bra_ket_sym = bks\<rparr>)
      else Inr (attach ((n + m) mod 2 \<noteq> 0)
             \<lparr>symbol = symb, upper = up1, lower = lo1, bra_ket_sym = bks\<rparr>))"
  using assms by (simp add: AntiSymmetricTensor_new_def Let_def)


text \<open>
  Claim C4, as the code has it. A tensor built with a nonzero bra/ket symmetry from
  \<^verbatim>\<open>Index\<close> values alone stores the two sorted groups, kept or exchanged, so that the
  space string of the upper group is not greater than that of the lower group: when
  the two strings differ, the group with the lexicographically smaller string, the
  one with more occupied indices, is the upper group.
\<close>

theorem smaller_space_string_is_upper:
  assumes "AntiSymmetricTensor_new symb up lo bks = Inr (Obj t)
         \<or> AntiSymmetricTensor_new symb up lo bks = Inr (Neg t)"
    and "bks \<noteq> 0" and "list_all is_Index (up @ lo)"
  shows "\<exists>up1 lo1 n m us ls.
       sort_anticommuting_fermions up AntiSymmetricTensor_sort_canonical = Some (up1, n)
     \<and> sort_anticommuting_fermions lo AntiSymmetricTensor_sort_canonical = Some (lo1, m)
     \<and> ((upper t = up1 \<and> lower t = lo1) \<or> (upper t = lo1 \<and> lower t = up1))
     \<and> indices_of (upper t) = Some us \<and> indices_of (lower t) = Some ls
     \<and> length us = length ls
     \<and> map space us \<le> map space ls"
proof -
  from assms(1) obtain up1 n where up1:
    "sort_anticommuting_fermions up AntiSymmetricTensor_sort_canonical = Some (up1, n)"
    by (cases "sort_anticommuting_fermions up AntiSymmetricTensor_sort_canonical")
       (auto simp: AntiSymmetricTensor_new_def)
  from assms(1) up1 obtain lo1 m where lo1:
    "sort_anticommuting_fermions lo AntiSymmetricTensor_sort_canonical = Some (lo1, m)"
    by (cases "sort_anticommuting_fermions lo AntiSymmetricTensor_sort_canonical")
       (auto simp: AntiSymmetricTensor_new_def)
  from assms(3) have "list_all is_Index up1" "list_all is_Index lo1"
    using sort_fermions_all_Index [OF up1] sort_fermions_all_Index [OF lo1] by simp_all
  then obtain us ls where us: "indices_of up1 = Some us" and ls: "indices_of lo1 = Some ls"
    using indices_of_Some_iff [of up1] indices_of_Some_iff [of lo1] by auto
  note new = AntiSymmetricTensor_new_sorted [OF up1 lo1 us ls assms(2), of symb]
  have len: "length us = length up1" "length ls = length lo1"
    using indices_of_length us ls by blast+
  show ?thesis
  proof (cases "map space ls < map space us
              \<or> (map space ls = map space us
                  \<and> map (\<lambda>s. (int (number s), letter s)) ls < map (\<lambda>s. (int (number s), letter s)) us)")
    case True
    with assms(1) new have t: "upper t = lo1" "lower t = up1" "length up1 = length lo1"
      by (auto simp: attach_def split: if_splits)
    with True up1 lo1 us ls len show ?thesis
      by (intro exI [of _ up1] exI [of _ lo1] exI [of _ n] exI [of _ m] exI [of _ ls] exI [of _ us])
         auto
  next
    case False
    with assms(1) new have t: "upper t = up1" "lower t = lo1" "length up1 = length lo1"
      by (auto simp: attach_def split: if_splits)
    from False have "map space us \<le> map space ls"
      by auto
    with t up1 lo1 us ls len show ?thesis
      by (intro exI [of _ up1] exI [of _ lo1] exI [of _ n] exI [of _ m] exI [of _ us] exI [of _ ls])
         auto
  qed
qed

theorem smaller_space_string_is_upper_witness:
  "AntiSymmetricTensor_new ''V'' [Idx a_virt, Idx b_virt] [Idx i_occ, Idx j_occ] 1
     = Inr (Obj \<lparr>symbol = ''V'', upper = [Idx i_occ, Idx j_occ],
                lower = [Idx a_virt, Idx b_virt], bra_ket_sym = 1\<rparr>)
   \<and> (\<exists>us ls. indices_of [Idx i_occ, Idx j_occ] = Some us
        \<and> indices_of [Idx a_virt, Idx b_virt] = Some ls \<and> map space us \<le> map space ls)"
proof -
  let ?t = "\<lparr>symbol = ''V'', upper = [Idx i_occ, Idx j_occ],
              lower = [Idx a_virt, Idx b_virt], bra_ket_sym = 1\<rparr>"
  have h: "AntiSymmetricTensor_new ''V'' [Idx a_virt, Idx b_virt] [Idx i_occ, Idx j_occ] 1
     = Inr (Obj ?t)"
    by (simp add: AntiSymmetricTensor_new_def AntiSymmetricTensor_sort_canonical_def
        less_key_def attach_def Let_def)
  then have h': "AntiSymmetricTensor_new ''V'' [Idx a_virt, Idx b_virt] [Idx i_occ, Idx j_occ] 1
     = Inr (Obj ?t)
     \<or> AntiSymmetricTensor_new ''V'' [Idx a_virt, Idx b_virt] [Idx i_occ, Idx j_occ] 1
     = Inr (Neg ?t)"
    by simp
  have nz: "(1::int) \<noteq> 0"
    by simp
  have ix: "list_all is_Index ([Idx a_virt, Idx b_virt] @ [Idx i_occ, Idx j_occ])"
    by simp
  from smaller_space_string_is_upper [OF h' nz ix] h show ?thesis
    by auto
qed

text \<open>
  Claim C4 as stated, with the smaller space string stored as the lower group, fails:
  for the upper group \<open>(a, b)\<close> of virtual indices and the lower group \<open>(i, j)\<close> of
  occupied ones, line 44 finds \<^verbatim>\<open>'oo' < 'vv'\<close> and exchanges the groups, so the occupied
  group is stored as the upper one. The branch for equal space strings (lines 49 to
  57) orders the groups the same way, the smaller one first.
\<close>

theorem occupied_group_becomes_upper_counterexample:
  "AntiSymmetricTensor_new ''V'' [Idx a_virt, Idx b_virt] [Idx i_occ, Idx j_occ] 1
     = Inr (Obj \<lparr>symbol = ''V'', upper = [Idx i_occ, Idx j_occ],
                lower = [Idx a_virt, Idx b_virt], bra_ket_sym = 1\<rparr>)
   \<and> map space [i_occ, j_occ] < map space [a_virt, b_virt]"
  by (simp add: AntiSymmetricTensor_new_def AntiSymmetricTensor_sort_canonical_def
      less_key_def attach_def Let_def)

section \<open>Adding a bra/ket symmetry\<close>






section \<open>The sign of an exchange within a group\<close>

subsection \<open>The count of the sort when two entries are exchanged\<close>

lemma insert_fermion_count:
  assumes "sorted_wrt (\<lambda>u v. f u < f v) ys" "f x \<notin> f ` set ys"
  obtains zs where "insert_fermion x ys f = Some (zs, length (filter (\<lambda>y. f y < f x) ys))"
    "sorted_wrt (\<lambda>u v. f u < f v) zs" "set zs = insert x (set ys)"
  using insert_fermion_sorted [OF assms] by blast

lemma filter_count_set:
  assumes "distinct xs" "distinct ys" "set ys = insert a (set xs)" "a \<notin> set xs"
  shows "length (filter P ys) = length (filter P xs) + (if P a then 1 else 0)"
proof -
  have "card {x \<in> set ys. P x} = card {x \<in> set xs. P x} + (if P a then 1 else 0)"
  proof (cases "P a")
    case True
    then have "{x \<in> set ys. P x} = insert a {x \<in> set xs. P x}"
      using assms(3) by auto
    moreover have "a \<notin> {x \<in> set xs. P x}"
      using assms(4) by simp
    ultimately show ?thesis
      using True by simp
  next
    case False
    then have "{x \<in> set ys. P x} = {x \<in> set xs. P x}"
      using assms(3) by auto
    with False show ?thesis by simp
  qed
  moreover have "length (filter P ys) = card {x \<in> set ys. P x}"
    using assms(2) by (metis distinct_filter distinct_card set_filter)
  moreover have "length (filter P xs) = card {x \<in> set xs. P x}"
    using assms(1) by (metis distinct_filter distinct_card set_filter)
  ultimately show ?thesis by simp
qed

lemma sorted_by_key_distinct:
  "sorted_wrt (\<lambda>u v. f u < (f v :: 'k::linorder)) xs \<Longrightarrow> distinct xs"
  by (induction xs) auto

lemma insert_fermion_twice:
  assumes s: "sorted_wrt (\<lambda>u v. f u < f v) S"
    and a: "f a \<notin> f ` set S" and b: "f b \<notin> f ` set S" and ab: "f a \<noteq> f b"
  shows "\<exists>Sb zs. insert_fermion b S f = Some (Sb, length (filter (\<lambda>y. f y < f b) S))
     \<and> insert_fermion a Sb f
         = Some (zs, length (filter (\<lambda>y. f y < f a) S) + (if f b < f a then 1 else 0))
     \<and> sorted_wrt (\<lambda>u v. f u < f v) zs \<and> set zs = insert a (insert b (set S))"
proof -
  from insert_fermion_count [OF s b] obtain Sb where
    Sb: "insert_fermion b S f = Some (Sb, length (filter (\<lambda>y. f y < f b) S))"
      "sorted_wrt (\<lambda>u v. f u < f v) Sb" "set Sb = insert b (set S)"
    by blast
  have a': "f a \<notin> f ` set Sb"
    using a ab Sb(3) by auto
  from insert_fermion_count [OF Sb(2) a'] obtain zs where
    zs: "insert_fermion a Sb f = Some (zs, length (filter (\<lambda>y. f y < f a) Sb))"
      "sorted_wrt (\<lambda>u v. f u < f v) zs" "set zs = insert a (set Sb)"
    by blast
  have "b \<notin> set S"
    using b by auto
  then have "length (filter (\<lambda>y. f y < f a) Sb)
      = length (filter (\<lambda>y. f y < f a) S) + (if f b < f a then 1 else 0)"
    using filter_count_set [of S Sb b "\<lambda>y. f y < f a"] sorted_by_key_distinct [OF s]
      sorted_by_key_distinct [OF Sb(2)] Sb(3) by simp
  with Sb zs show ?thesis
    by auto
qed

lemma sort_fermions_neighbours:
  assumes "distinct (map f (A @ a # b # C))"
  shows "\<exists>zs n m. sort_anticommuting_fermions (A @ a # b # C) f = Some (zs, n)
     \<and> sort_anticommuting_fermions (A @ b # a # C) f = Some (zs, m)
     \<and> odd (n + m)"
  using assms
proof (induction A)
  case Nil
  then have d: "distinct (map f C)" and a: "f a \<notin> f ` set C" and b: "f b \<notin> f ` set C"
    and ab: "f a \<noteq> f b"
    by auto
  from sort_fermions_distinct [OF d] obtain S k where
    S: "sort_anticommuting_fermions C f = Some (S, k)"
      "sorted_wrt (\<lambda>u v. f u < f v) S" "set S = set C"
    by blast
  from a b S(3) have a': "f a \<notin> f ` set S" and b': "f b \<notin> f ` set S"
    by simp_all
  from insert_fermion_twice [OF S(2) a' b' ab] obtain Sb zs where
    1: "insert_fermion b S f = Some (Sb, length (filter (\<lambda>y. f y < f b) S))"
      "insert_fermion a Sb f
         = Some (zs, length (filter (\<lambda>y. f y < f a) S) + (if f b < f a then 1 else 0))"
      "sorted_wrt (\<lambda>u v. f u < f v) zs" "set zs = insert a (insert b (set S))"
    by blast
  from insert_fermion_twice [OF S(2) b' a' ab [symmetric]] obtain Sa zs' where
    2: "insert_fermion a S f = Some (Sa, length (filter (\<lambda>y. f y < f a) S))"
      "insert_fermion b Sa f
         = Some (zs', length (filter (\<lambda>y. f y < f b) S) + (if f a < f b then 1 else 0))"
      "sorted_wrt (\<lambda>u v. f u < f v) zs'" "set zs' = insert b (insert a (set S))"
    by blast
  have same: "zs' = zs"
    using sorted_by_key_unique [OF 2(3) 1(3)] 1(4) 2(4) by auto
  have "odd ((k + length (filter (\<lambda>y. f y < f b) S)
        + (length (filter (\<lambda>y. f y < f a) S) + (if f b < f a then 1 else 0)))
      + (k + length (filter (\<lambda>y. f y < f a) S)
        + (length (filter (\<lambda>y. f y < f b) S) + (if f a < f b then 1 else 0))))"
    using ab by (cases "f a < f b") auto
  with S(1) 1 2 same show ?case
    by (auto simp: add.assoc)
next
  case (Cons x A)
  then obtain zs n m where
    IH: "sort_anticommuting_fermions (A @ a # b # C) f = Some (zs, n)"
      "sort_anticommuting_fermions (A @ b # a # C) f = Some (zs, m)" "odd (n + m)"
    by auto
  from Cons.prems have "distinct (map f (x # A @ a # b # C))"
    by simp
  from sort_fermions_distinct [OF this] IH(1) obtain ys k where
    ys: "insert_fermion x zs f = Some (ys, k)"
    by (auto split: option.splits)
  with IH show ?case
    by auto
qed

lemma sort_fermions_move:
  assumes "distinct (map f (A @ a # B @ C))"
  shows "\<exists>zs n m. sort_anticommuting_fermions (A @ a # B @ C) f = Some (zs, n)
     \<and> sort_anticommuting_fermions (A @ B @ a # C) f = Some (zs, m)
     \<and> even (n + m + length B)"
  using assms
proof (induction B arbitrary: A)
  case Nil
  from sort_fermions_distinct [OF Nil.prems] show ?case
    by auto
next
  case (Cons b B)
  from Cons.prems have "distinct (map f (A @ a # b # (B @ C)))"
    by simp
  from sort_fermions_neighbours [OF this] obtain zs n m1 where
    1: "sort_anticommuting_fermions (A @ a # b # B @ C) f = Some (zs, n)"
      "sort_anticommuting_fermions (A @ b # a # B @ C) f = Some (zs, m1)" "odd (n + m1)"
    by auto
  from Cons.prems have "distinct (map f ((A @ [b]) @ a # B @ C))"
    by auto
  from Cons.IH [OF this] 1(2) obtain m2 where
    2: "sort_anticommuting_fermions (A @ b # B @ a # C) f = Some (zs, m2)"
      "even (m1 + m2 + length B)"
    by auto
  from 1(3) 2(2) have "even (n + m2 + length (b # B))"
    by auto
  with 1(1) 2(1) show ?case
    by auto
qed

lemma sort_fermions_exchange:
  assumes "distinct (map f (A @ a # B @ b # C))"
  shows "\<exists>zs n m. sort_anticommuting_fermions (A @ a # B @ b # C) f = Some (zs, n)
     \<and> sort_anticommuting_fermions (A @ b # B @ a # C) f = Some (zs, m)
     \<and> odd (n + m)"
proof -
  from assms have "distinct (map f (A @ a # (B @ [b]) @ C))"
    by simp
  from sort_fermions_move [OF this] obtain zs n k where
    1: "sort_anticommuting_fermions (A @ a # B @ b # C) f = Some (zs, n)"
      "sort_anticommuting_fermions (A @ B @ b # a # C) f = Some (zs, k)"
      "even (n + k + length (B @ [b]))"
    by auto
  from assms have "distinct (map f (A @ b # B @ (a # C)))"
    by auto
  from sort_fermions_move [OF this] 1(2) obtain m where
    2: "sort_anticommuting_fermions (A @ b # B @ a # C) f = Some (zs, m)"
      "even (m + k + length B)"
    by auto
  from 1(3) 2(2) have "odd (n + m)"
    by auto
  with 1(1) 2(1) show ?thesis
    by auto
qed

lemma filter_count_same_set:
  assumes "distinct xs" "distinct ys" "set ys = set xs"
  shows "length (filter P ys) = length (filter P xs)"
proof -
  have "length (filter P ys) = card {x \<in> set ys. P x}"
    using assms(2) by (metis distinct_filter distinct_card set_filter)
  moreover have "length (filter P xs) = card {x \<in> set xs. P x}"
    using assms(1) by (metis distinct_filter distinct_card set_filter)
  ultimately show ?thesis
    using assms(3) by simp
qed

lemma sort_fermions_counts_inversions:
  assumes "sort_anticommuting_fermions xs f = Some (ys, n)"
  shows "n = inversions xs f"
  using assms
proof (induction xs arbitrary: ys n)
  case Nil
  then show ?case by simp
next
  case (Cons x xs)
  from Cons.prems obtain zs k c where
    zs: "sort_anticommuting_fermions xs f = Some (zs, k)"
    and ins: "insert_fermion x zs f = Some (ys, c)" and n: "n = k + c"
    by (auto split: option.splits)
  have k: "k = inversions xs f"
    using Cons.IH zs by blast
  have d: "distinct (map f (x # xs))"
    using Cons.prems by (rule sort_fermions_Some)
  then have dx: "distinct xs"
    by (simp add: distinct_map)
  from sort_fermions_distinct [of f xs] d zs
  have s: "sorted_wrt (\<lambda>u v. f u < f v) zs" and st: "set zs = set xs"
    by auto
  from d st have "f x \<notin> f ` set zs"
    by auto
  from insert_fermion_sorted [OF s this] ins
  have "c = length (filter (\<lambda>y. f y < f x) zs)"
    by auto
  also have "\<dots> = length (filter (\<lambda>y. f y < f x) xs)"
    using filter_count_same_set [OF dx sorted_by_key_distinct [OF s] st] .
  finally show ?case
    using n k by simp
qed

subsection \<open>The constructor when the count changes parity\<close>

lemma mod_two_odd:
  "(k mod 2 \<noteq> 0) = odd k" "(k mod 2 = Suc 0) = odd k" for k :: nat
  by presburger+

lemma AntiSymmetricTensor_new_upper_parity:
  assumes "sort_anticommuting_fermions up AntiSymmetricTensor_sort_canonical = Some (up1, n)"
    and "sort_anticommuting_fermions up' AntiSymmetricTensor_sort_canonical = Some (up1, n')"
    and "odd (n + n')"
  shows "AntiSymmetricTensor_new symb up' lo bks
     = map_sum id negate (AntiSymmetricTensor_new symb up lo bks)"
proof -
  from assms(3) have "odd n' = even n"
    by auto
  then show ?thesis
    using assms(1,2)
    by (auto simp: AntiSymmetricTensor_new_def Let_def attach_def mod_two_odd
        split: option.splits)
qed

lemma AntiSymmetricTensor_new_lower_parity:
  assumes "sort_anticommuting_fermions lo AntiSymmetricTensor_sort_canonical = Some (lo1, n)"
    and "sort_anticommuting_fermions lo' AntiSymmetricTensor_sort_canonical = Some (lo1, n')"
    and "odd (n + n')"
  shows "AntiSymmetricTensor_new symb up lo' bks
     = map_sum id negate (AntiSymmetricTensor_new symb up lo bks)"
proof -
  from assms(3) have "odd n' = even n"
    by auto
  then show ?thesis
    using assms(1,2)
    by (auto simp: AntiSymmetricTensor_new_def Let_def attach_def mod_two_odd
        split: option.splits)
qed

lemma AntiSymmetricTensor_new_repeated_key:
  assumes "\<not> distinct (map AntiSymmetricTensor_sort_canonical up)
         \<or> \<not> distinct (map AntiSymmetricTensor_sort_canonical lo)"
  shows "AntiSymmetricTensor_new symb up lo bks = Inr Zero"
proof -
  from assms have "sort_anticommuting_fermions up AntiSymmetricTensor_sort_canonical = None
      \<or> sort_anticommuting_fermions lo AntiSymmetricTensor_sort_canonical = None"
    by (simp add: sort_fermions_None_iff)
  then show ?thesis
    by (auto simp: AntiSymmetricTensor_new_def split: option.splits)
qed

lemma exchange_upper:
  "AntiSymmetricTensor_new symb (A @ b # B @ a # C) lo bks
     = map_sum id negate (AntiSymmetricTensor_new symb (A @ a # B @ b # C) lo bks)"
proof (cases "distinct (map AntiSymmetricTensor_sort_canonical (A @ a # B @ b # C))")
  case True
  from sort_fermions_exchange [OF True] obtain zs n m where
    "sort_anticommuting_fermions (A @ a # B @ b # C) AntiSymmetricTensor_sort_canonical = Some (zs, n)"
    "sort_anticommuting_fermions (A @ b # B @ a # C) AntiSymmetricTensor_sort_canonical = Some (zs, m)"
    "odd (n + m)"
    by blast
  then show ?thesis
    by (rule AntiSymmetricTensor_new_upper_parity)
next
  case False
  then have "\<not> distinct (map AntiSymmetricTensor_sort_canonical (A @ b # B @ a # C))"
    by auto
  with False show ?thesis
    by (simp add: AntiSymmetricTensor_new_repeated_key)
qed

lemma exchange_lower:
  "AntiSymmetricTensor_new symb up (A @ b # B @ a # C) bks
     = map_sum id negate (AntiSymmetricTensor_new symb up (A @ a # B @ b # C) bks)"
proof (cases "distinct (map AntiSymmetricTensor_sort_canonical (A @ a # B @ b # C))")
  case True
  from sort_fermions_exchange [OF True] obtain zs n m where
    "sort_anticommuting_fermions (A @ a # B @ b # C) AntiSymmetricTensor_sort_canonical = Some (zs, n)"
    "sort_anticommuting_fermions (A @ b # B @ a # C) AntiSymmetricTensor_sort_canonical = Some (zs, m)"
    "odd (n + m)"
    by blast
  then show ?thesis
    by (rule AntiSymmetricTensor_new_lower_parity)
next
  case False
  then have "\<not> distinct (map AntiSymmetricTensor_sort_canonical (A @ b # B @ a # C))"
    by auto
  with False show ?thesis
    by (simp add: AntiSymmetricTensor_new_repeated_key)
qed

text \<open>
  Claim C6. Exchanging two indices of the upper group, or two of the lower group,
  negates what the constructor of AntiSymmetricTensor returns: the tensor becomes its
  negation and the negation the tensor, the scalar zero stays zero, and an error stays
  the same error. The group is written \<open>A @ a # B @ b # C\<close>, the two entries \<open>a\<close> and
  \<open>b\<close> standing anywhere in it. When the two exchanged indices are equal the result is
  the scalar zero.
\<close>

theorem exchange_in_a_group_negates:
  "AntiSymmetricTensor_new symb (A @ b # B @ a # C) lo bks
     = map_sum id negate (AntiSymmetricTensor_new symb (A @ a # B @ b # C) lo bks)
   \<and> AntiSymmetricTensor_new symb up (A @ b # B @ a # C) bks
     = map_sum id negate (AntiSymmetricTensor_new symb up (A @ a # B @ b # C) bks)
   \<and> AntiSymmetricTensor_new symb (A @ a # B @ a # C) lo bks = Inr Zero
   \<and> AntiSymmetricTensor_new symb up (A @ a # B @ a # C) bks = Inr Zero"
  using exchange_upper [of symb A b B a C lo bks] exchange_lower [of symb up A b B a C bks]
  by (simp add: AntiSymmetricTensor_new_Pauli)

theorem exchange_in_a_group_negates_witness:
  "AntiSymmetricTensor_new ''t'' [Idx a_virt, Idx b_virt] [Idx i_occ, Idx j_occ] 0
     = Inr (Obj \<lparr>symbol = ''t'', upper = [Idx a_virt, Idx b_virt],
                lower = [Idx i_occ, Idx j_occ], bra_ket_sym = 0\<rparr>)
   \<and> AntiSymmetricTensor_new ''t'' [Idx b_virt, Idx a_virt] [Idx i_occ, Idx j_occ] 0
     = Inr (Neg \<lparr>symbol = ''t'', upper = [Idx a_virt, Idx b_virt],
                lower = [Idx i_occ, Idx j_occ], bra_ket_sym = 0\<rparr>)
   \<and> AntiSymmetricTensor_new ''t'' [Idx a_virt, Idx b_virt] [Idx j_occ, Idx i_occ] 0
     = Inr (Neg \<lparr>symbol = ''t'', upper = [Idx a_virt, Idx b_virt],
                lower = [Idx i_occ, Idx j_occ], bra_ket_sym = 0\<rparr>)
   \<and> AntiSymmetricTensor_new ''t'' [Idx a_virt, Idx a_virt] [Idx i_occ, Idx j_occ] 0 = Inr Zero"
proof -
  have h: "AntiSymmetricTensor_new ''t'' [Idx a_virt, Idx b_virt] [Idx i_occ, Idx j_occ] 0
     = Inr (Obj \<lparr>symbol = ''t'', upper = [Idx a_virt, Idx b_virt],
                lower = [Idx i_occ, Idx j_occ], bra_ket_sym = 0\<rparr>)"
    by (simp add: AntiSymmetricTensor_new_def AntiSymmetricTensor_sort_canonical_def
        less_key_def attach_def Let_def)
  from exchange_in_a_group_negates
    [of "''t''" "[]" "Idx b_virt" "[]" "Idx a_virt" "[]" "[Idx i_occ, Idx j_occ]" 0
      "[Idx a_virt, Idx b_virt]"]
    exchange_in_a_group_negates
    [of "''t''" "[]" "Idx j_occ" "[]" "Idx i_occ" "[]" "[Idx i_occ, Idx j_occ]" 0
      "[Idx a_virt, Idx b_virt]"]
    h
  show ?thesis
    by simp
qed

end
